theory Spec2Isabelle
  imports Main "HOL-Library.Sublist"
begin

section \<open>The asynchronous mutex (class Mutex)\<close>

subsection \<open>Promises and the state of the lock\<close>

text \<open>
  A JavaScript promise is pending, fulfilled, or rejected with an error. The promise
  objects of the heap are kept in a list; a promise is named by its index, which is the
  order of its creation.
\<close>

datatype 'e pstate = Pending | Fulfilled | Rejected 'e

text \<open>
  The class has two private fields, \<^verbatim>\<open>locked = false\<close> and
  \<^verbatim>\<open>queue: (() => void)[] = []\<close>. An element of the queue is the
  \<^verbatim>\<open>resolve\<close> function of a promise made by \<^verbatim>\<open>lock\<close>; it is represented by the
  index of that promise. The third field is the heap of promise objects.
\<close>

record 'e world =
  locked :: bool
  queue :: "nat list"
  promises :: "'e pstate list"

definition fresh :: "'e world" where
  "fresh = \<lparr>locked = False, queue = [], promises = []\<rparr>"

text \<open>The state of promise \<open>p\<close>; an index that names no promise never settles.\<close>

definition state_of :: "'e world \<Rightarrow> nat \<Rightarrow> 'e pstate" where
  "state_of w p = (if p < length (promises w) then promises w ! p else Pending)"

text \<open>\<^verbatim>\<open>new Promise(...)\<close> and \<^verbatim>\<open>Promise.resolve()\<close>: a new object in the given state.\<close>

definition new_promise :: "'e pstate \<Rightarrow> 'e world \<Rightarrow> nat \<times> 'e world" where
  "new_promise st w = (length (promises w), w\<lparr>promises := promises w @ [st]\<rparr>)"

text \<open>Calling the \<^verbatim>\<open>resolve\<close> function of promise \<open>p\<close>: a settled promise stays as it is.\<close>

definition resolve :: "nat \<Rightarrow> 'e world \<Rightarrow> 'e world" where
  "resolve p w =
     (if state_of w p = Pending then w\<lparr>promises := (promises w)[p := Fulfilled]\<rparr> else w)"

subsection \<open>lock and unlock\<close>

text \<open>
  \<^verbatim>\<open>
  lock() {
      if (this.locked) {
          return new Promise<void>(resolve => { this.queue.push(resolve); });
      } else {
          this.locked = true;
          return Promise.resolve();
      }
  }
  \<close>
  The result is the returned promise and the state after the call.
\<close>

definition lock :: "'e world \<Rightarrow> nat \<times> 'e world" where
  "lock w =
     (if locked w then
        (case new_promise Pending w of (p, w1) \<Rightarrow> (p, w1\<lparr>queue := queue w1 @ [p]\<rparr>))
      else new_promise Fulfilled (w\<lparr>locked := True\<rparr>))"

text \<open>\<^verbatim>\<open>this.queue.shift()\<close>: removes and returns the first element, undefined when empty.\<close>

definition queue_shift :: "'e world \<Rightarrow> nat option \<times> 'e world" where
  "queue_shift w =
     (case queue w of [] \<Rightarrow> (None, w) | r # rest \<Rightarrow> (Some r, w\<lparr>queue := rest\<rparr>))"

text \<open>
  \<^verbatim>\<open>
  unlock() {
      if (this.queue.length) {
          const resolve = this.queue.shift();
          if (resolve) { resolve(); }
      } else {
          this.locked = false;
      }
  }
  \<close>
\<close>

definition unlock :: "'e world \<Rightarrow> 'e world" where
  "unlock w =
     (if length (queue w) \<noteq> 0 then
        (case queue_shift w of
           (Some r, w1) \<Rightarrow> resolve r w1
         | (None, w1) \<Rightarrow> w1)
      else w\<lparr>locked := False\<rparr>)"

text \<open>
  The same method, listing the state after each of its statements, so that a property
  of the states in between can be stated.
\<close>

definition unlock_steps :: "'e world \<Rightarrow> 'e world list" where
  "unlock_steps w =
     (if length (queue w) \<noteq> 0 then
        (case queue_shift w of
           (Some r, w1) \<Rightarrow> [w1, resolve r w1]
         | (None, w1) \<Rightarrow> [w1])
      else [w\<lparr>locked := False\<rparr>])"

subsection \<open>Sequences of calls\<close>

datatype call = CallLock | CallUnlock

fun apply_call :: "call \<Rightarrow> 'e world \<Rightarrow> 'e world" where
  "apply_call CallLock w = snd (lock w)"
| "apply_call CallUnlock w = unlock w"

definition run :: "call list \<Rightarrow> 'e world \<Rightarrow> 'e world" where
  "run cs w = fold apply_call cs w"

text \<open>
  What every state reached by calls keeps: the waiters are distinct pending promises,
  and there are waiters only while the lock is held.
\<close>

definition well_formed :: "'e world \<Rightarrow> bool" where
  "well_formed w \<longleftrightarrow>
     distinct (queue w) \<and>
     (\<forall>p \<in> set (queue w). p < length (promises w) \<and> promises w ! p = Pending) \<and>
     (queue w \<noteq> [] \<longrightarrow> locked w)"

text \<open>
  The tickets of a fresh lock. Every call of lock makes one promise, so the \<open>n\<close>-th
  caller to arrive holds promise \<open>n\<close> (counting from 0). With \<open>k\<close> releases that took
  effect, promises below \<open>k\<close> belong to callers that are done, promise \<open>k\<close> to the
  holder when the lock is held, and the rest are the waiters, in order.
\<close>

definition ticket_inv :: "'e world \<Rightarrow> nat \<Rightarrow> bool" where
  "ticket_inv w k \<longleftrightarrow>
     (let g = (if locked w then Suc k else k) in
        g \<le> length (promises w) \<and>
        (\<forall>p < length (promises w). promises w ! p = (if p < g then Fulfilled else Pending)) \<and>
        queue w = [g ..< length (promises w)] \<and>
        (\<not> locked w \<longrightarrow> length (promises w) = k))"

subsection \<open>Who holds the lock\<close>

text \<open>
  \<^verbatim>\<open>unlock\<close> takes no argument and the class records no owner: the release that
  matches a grant is the first call of unlock after the promise of the caller was
  fulfilled. \<open>released w0 cs t\<close>: among the calls \<open>cs\<close>, made from \<open>w0\<close>, there is
  a call of unlock made when the promise \<open>t\<close> was already fulfilled.
  \<open>holding w0 cs t\<close>: after the calls \<open>cs\<close> the caller of promise \<open>t\<close> has been
  granted the lock and no release has followed. When every release is made by the caller
  that holds the lock, as the callers of the class are required to do, that call is the
  holder's own release.
\<close>

definition released :: "'e world \<Rightarrow> call list \<Rightarrow> nat \<Rightarrow> bool" where
  "released w0 cs t \<longleftrightarrow>
     list_ex (\<lambda>j. cs ! j = CallUnlock \<and> state_of (run (take j cs) w0) t = Fulfilled)
       [0 ..< length cs]"

definition holding :: "'e world \<Rightarrow> call list \<Rightarrow> nat \<Rightarrow> bool" where
  "holding w0 cs t \<longleftrightarrow> state_of (run cs w0) t = Fulfilled \<and> \<not> released w0 cs t"

subsection \<open>The method with\<close>

text \<open>
  \<^verbatim>\<open>
  async with(cb: () => Promise<void>) {
      return await this.lock().then(() => {
          const ret = cb();
          if (ret instanceof Promise) {
              return ret.then(() => { this.unlock(); });
          }
          this.unlock();
      });
  }
  \<close>
  The action \<^verbatim>\<open>cb\<close> is code of the caller: it may do anything to the lock and to the
  promises. It throws, or it returns. What it returns is told apart by the test
  \<^verbatim>\<open>ret instanceof Promise\<close>:
  \<^item> \<open>ReturnsPromise r\<close>: the promise \<open>r\<close>, for which the test holds;
  \<^item> \<open>ReturnsThenable r\<close>: a result that settles like the promise \<open>r\<close> but for which
    the test fails (a promise of another realm, an object with a method \<^verbatim>\<open>then\<close>);
  \<^item> \<open>ReturnsValue\<close>: any other value, with nothing left to settle.
\<close>

datatype 'e cb_result = Throws 'e | ReturnsValue | ReturnsPromise nat | ReturnsThenable nat

type_synonym 'e action = "'e world \<Rightarrow> 'e cb_result \<times> 'e world"

text \<open>
  An asynchronous function runs in pieces, each piece a job of the microtask queue. A call
  of \<^verbatim>\<open>with\<close> is suspended in one of these places:
  \<^item> \<open>AwaitLock h\<close>: the callback given to \<^verbatim>\<open>then\<close> waits for the promise \<open>h\<close> of lock;
  \<^item> \<open>AwaitAction r\<close>: the callback \<^verbatim>\<open>() => { this.unlock(); }\<close> waits for the promise
    \<open>r\<close> that the action returned;
  \<^item> \<open>Returning\<close>: the chain of \<^verbatim>\<open>then\<close> is fulfilled, \<^verbatim>\<open>await\<close> resumes next;
  \<^item> \<open>Failing e\<close>: the chain is rejected with \<open>e\<close>, \<^verbatim>\<open>await\<close> throws next;
  \<^item> \<open>Settled\<close>: the promise returned by \<^verbatim>\<open>with\<close> is settled.
  The field \<open>result\<close> is the promise that \<^verbatim>\<open>with\<close> returned to its caller, and
  \<open>events\<close> lists what the call has done so far, in order. Jobs that only pass a
  settled state from one promise of the chain to the next are not counted apart: the
  order of the calls of \<^verbatim>\<open>cb\<close> and \<^verbatim>\<open>unlock\<close> and of the settlement of
  \<open>result\<close> is the one of the code.
\<close>

datatype 'e stage = AwaitLock nat | AwaitAction nat | Returning | Failing 'e | Settled

datatype 'e wevent = EvLock nat | EvInvoke "'e cb_result" | EvUnlock | EvFulfil | EvReject 'e

record 'e task =
  stage :: "'e stage"
  result :: "'e pstate"
  events :: "'e wevent list"

text \<open>
  The call itself: \<^verbatim>\<open>this.lock()\<close> runs at once, the callback is registered with
  \<^verbatim>\<open>then\<close>, and the function suspends at \<^verbatim>\<open>await\<close> with its promise pending. The
  callback never runs inside the call, even when the promise of lock is already fulfilled.
\<close>

definition with_start :: "'e world \<Rightarrow> 'e task \<times> 'e world" where
  "with_start w =
     (case lock w of (h, w1) \<Rightarrow>
        (\<lparr>stage = AwaitLock h, result = Pending, events = [EvLock h]\<rparr>, w1))"

text \<open>
  The callback given to \<^verbatim>\<open>then\<close>. An exception of \<^verbatim>\<open>cb()\<close> leaves the callback, so
  the chain is rejected. A result that passes \<^verbatim>\<open>instanceof Promise\<close> gets the second
  callback. For every other result, settled or not, unlock is called before the callback
  returns.
\<close>

definition with_body :: "'e action \<Rightarrow> 'e task \<Rightarrow> 'e world \<Rightarrow> 'e task \<times> 'e world" where
  "with_body cb t w =
     (case cb w of (ret, w1) \<Rightarrow>
        (case ret of
           Throws e \<Rightarrow> (t\<lparr>stage := Failing e, events := events t @ [EvInvoke ret]\<rparr>, w1)
         | ReturnsPromise r \<Rightarrow>
             (t\<lparr>stage := AwaitAction r, events := events t @ [EvInvoke ret]\<rparr>, w1)
         | ReturnsValue \<Rightarrow>
             (t\<lparr>stage := Returning, events := events t @ [EvInvoke ret, EvUnlock]\<rparr>,
              unlock w1)
         | ReturnsThenable r \<Rightarrow>
             (t\<lparr>stage := Returning, events := events t @ [EvInvoke ret, EvUnlock]\<rparr>,
              unlock w1)))"

text \<open>The callback \<^verbatim>\<open>() => { this.unlock(); }\<close>.\<close>

definition with_then_unlock :: "'e task \<Rightarrow> 'e world \<Rightarrow> 'e task \<times> 'e world" where
  "with_then_unlock t w = (t\<lparr>stage := Returning, events := events t @ [EvUnlock]\<rparr>, unlock w)"

text \<open>
  One job of the microtask queue for this call. A callback registered with
  \<^verbatim>\<open>then(f)\<close> runs when its promise is fulfilled; there is no handler for a
  rejection, which passes down the chain.
\<close>

definition with_tick :: "'e action \<Rightarrow> 'e task \<times> 'e world \<Rightarrow> 'e task \<times> 'e world" where
  "with_tick cb tw =
     (case tw of (t, w) \<Rightarrow>
        (case stage t of
           AwaitLock h \<Rightarrow>
             (case state_of w h of
                Pending \<Rightarrow> (t, w)
              | Fulfilled \<Rightarrow> with_body cb t w
              | Rejected e \<Rightarrow> (t\<lparr>stage := Failing e\<rparr>, w))
         | AwaitAction r \<Rightarrow>
             (case state_of w r of
                Pending \<Rightarrow> (t, w)
              | Fulfilled \<Rightarrow> with_then_unlock t w
              | Rejected e \<Rightarrow> (t\<lparr>stage := Failing e\<rparr>, w))
         | Returning \<Rightarrow>
             (t\<lparr>stage := Settled, result := Fulfilled, events := events t @ [EvFulfil]\<rparr>, w)
         | Failing e \<Rightarrow>
             (t\<lparr>stage := Settled, result := Rejected e, events := events t @ [EvReject e]\<rparr>, w)
         | Settled \<Rightarrow> (t, w)))"

subsection \<open>What happens around a call of with\<close>

text \<open>
  Between two jobs of a call of \<^verbatim>\<open>with\<close> other code runs: it calls lock or unlock,
  or it settles a promise of its own. A promise made by lock is settled by unlock alone,
  since its \<^verbatim>\<open>resolve\<close> function is nowhere but in the queue.
\<close>

datatype 'e env = Tick | Call call | Settle nat "'e option"

definition settle :: "nat \<Rightarrow> 'e option \<Rightarrow> 'e world \<Rightarrow> 'e world" where
  "settle r out w =
     (if r < length (promises w) \<and> promises w ! r = Pending \<and> r \<notin> set (queue w) then
        w\<lparr>promises :=
            (promises w)[r := (case out of None \<Rightarrow> Fulfilled | Some e \<Rightarrow> Rejected e)]\<rparr>
      else w)"

fun env_step :: "'e action \<Rightarrow> 'e env \<Rightarrow> 'e task \<times> 'e world \<Rightarrow> 'e task \<times> 'e world" where
  "env_step cb Tick tw = with_tick cb tw"
| "env_step cb (Call c) tw = (fst tw, apply_call c (snd tw))"
| "env_step cb (Settle r out) tw = (fst tw, settle r out (snd tw))"

definition exec :: "'e action \<Rightarrow> 'e env list \<Rightarrow> 'e task \<times> 'e world \<Rightarrow> 'e task \<times> 'e world" where
  "exec cb es tw = fold (env_step cb) es tw"

text \<open>
  The action has completed normally: it returned, and what it returned, promise or
  thenable, is fulfilled.
\<close>

definition completed :: "'e world \<Rightarrow> 'e cb_result \<Rightarrow> bool" where
  "completed w ret =
     (case ret of Throws e \<Rightarrow> False | ReturnsValue \<Rightarrow> True
      | ReturnsPromise r \<Rightarrow> state_of w r = Fulfilled
      | ReturnsThenable r \<Rightarrow> state_of w r = Fulfilled)"

text \<open>The results for which \<^verbatim>\<open>ret instanceof Promise\<close> fails.\<close>

definition is_thenable :: "'e cb_result \<Rightarrow> bool" where
  "is_thenable ret = (case ret of ReturnsThenable r \<Rightarrow> True | _ \<Rightarrow> False)"




text \<open>
  What a call of \<^verbatim>\<open>with\<close> keeps, whatever happens around it; \<open>h\<close> is the promise
  that lock returned to it.
\<close>

definition with_inv :: "nat \<Rightarrow> 'e task \<Rightarrow> 'e world \<Rightarrow> bool" where
  "with_inv h t w \<longleftrightarrow>
     (case stage t of
        AwaitLock h' \<Rightarrow>
          h' = h \<and> events t = [EvLock h] \<and> result t = Pending \<and> h < length (promises w) \<and>
          (promises w ! h = Fulfilled \<or> (promises w ! h = Pending \<and> h \<in> set (queue w)))
      | AwaitAction r \<Rightarrow>
          events t = [EvLock h, EvInvoke (ReturnsPromise r)] \<and> result t = Pending
      | Returning \<Rightarrow>
          result t = Pending \<and>
          (\<exists>ret. events t = [EvLock h, EvInvoke ret, EvUnlock] \<and>
             (completed w ret \<or> is_thenable ret))
      | Failing e \<Rightarrow>
          result t = Pending \<and>
          (\<exists>ret. events t = [EvLock h, EvInvoke ret] \<and>
             (ret = Throws e \<or> (\<exists>r. ret = ReturnsPromise r \<and> state_of w r = Rejected e)))
      | Settled \<Rightarrow>
          (result t = Fulfilled \<and>
           (\<exists>ret. events t = [EvLock h, EvInvoke ret, EvUnlock, EvFulfil] \<and>
              (completed w ret \<or> is_thenable ret))) \<or>
          (\<exists>e ret. result t = Rejected e \<and> events t = [EvLock h, EvInvoke ret, EvReject e]))"

text \<open>
  Five actions, as examples: \<^verbatim>\<open>() => { throw x; }\<close>;
  \<^verbatim>\<open>async () => { throw x; }\<close>, which returns a promise already rejected with
  \<open>x\<close>; an action that returns a new pending promise; an action that returns a new
  pending promise of another realm; and \<^verbatim>\<open>() => undefined\<close>.
\<close>

definition throwing :: "'e \<Rightarrow> 'e action" where
  "throwing x w = (Throws x, w)"

definition rejecting :: "'e \<Rightarrow> 'e action" where
  "rejecting x w = (case new_promise (Rejected x) w of (r, w1) \<Rightarrow> (ReturnsPromise r, w1))"

definition returning_promise :: "'e action" where
  "returning_promise w = (case new_promise Pending w of (r, w1) \<Rightarrow> (ReturnsPromise r, w1))"

definition returning_thenable :: "'e action" where
  "returning_thenable w = (case new_promise Pending w of (r, w1) \<Rightarrow> (ReturnsThenable r, w1))"

definition returning_value :: "'e action" where
  "returning_value w = (ReturnsValue, w)"

section \<open>Basic facts\<close>

lemmas evals = fresh_def lock_def new_promise_def unlock_def queue_shift_def resolve_def
  state_of_def

lemmas with_evals = with_start_def with_tick_def with_body_def with_then_unlock_def
  settle_def throwing_def rejecting_def returning_promise_def returning_thenable_def
  returning_value_def

lemma run_Nil [simp]: "run [] w = w"
  by (simp add: run_def)

lemma run_Cons [simp]: "run (c # cs) w = run cs (apply_call c w)"
  by (simp add: run_def)

lemma run_append [simp]: "run (cs @ ds) w = run ds (run cs w)"
  by (simp add: run_def)

lemma lock_free:
  "\<not> locked w \<Longrightarrow>
     lock w = (length (promises w), w\<lparr>locked := True, promises := promises w @ [Fulfilled]\<rparr>)"
  by (simp add: lock_def new_promise_def)

lemma lock_held:
  "locked w \<Longrightarrow>
     lock w = (length (promises w),
               w\<lparr>promises := promises w @ [Pending], queue := queue w @ [length (promises w)]\<rparr>)"
  by (simp add: lock_def new_promise_def)

lemma unlock_empty: "queue w = [] \<Longrightarrow> unlock w = w\<lparr>locked := False\<rparr>"
  by (simp add: unlock_def)

lemma unlock_Cons: "queue w = r # rest \<Longrightarrow> unlock w = resolve r (w\<lparr>queue := rest\<rparr>)"
  by (simp add: unlock_def queue_shift_def)

lemma fst_lock [simp]: "fst (lock w) = length (promises w)"
  by (simp add: lock_def new_promise_def)

lemma length_promises_lock [simp]: "length (promises (snd (lock w))) = Suc (length (promises w))"
  by (simp add: lock_def new_promise_def)

lemma length_promises_resolve [simp]: "length (promises (resolve r w)) = length (promises w)"
  by (simp add: resolve_def)

lemma length_promises_unlock [simp]: "length (promises (unlock w)) = length (promises w)"
  by (simp add: unlock_def queue_shift_def split: list.splits)

lemma state_of_lock_new:
  "state_of (snd (lock w)) (length (promises w)) = (if locked w then Pending else Fulfilled)"
  by (simp add: lock_def new_promise_def state_of_def)

lemma state_of_resolve:
  "state_of (resolve r w) p =
     (if p = r \<and> r < length (promises w) \<and> promises w ! r = Pending then Fulfilled
      else state_of w p)"
  by (auto simp: resolve_def state_of_def)

lemma queue_resolve [simp]: "queue (resolve r w) = queue w"
  by (simp add: resolve_def)

lemma locked_resolve [simp]: "locked (resolve r w) = locked w"
  by (simp add: resolve_def)

lemma state_of_unlock:
  "state_of (unlock w) p =
     (if queue w \<noteq> [] \<and> p = hd (queue w) \<and> p < length (promises w) \<and> promises w ! p = Pending
      then Fulfilled else state_of w p)"
  by (cases "queue w") (auto simp: unlock_empty unlock_Cons state_of_resolve, auto simp: state_of_def)

lemma queue_unlock: "queue (unlock w) = tl (queue w)"
  by (cases "queue w") (simp_all add: unlock_empty unlock_Cons)

lemma apply_call_length_mono: "length (promises w) \<le> length (promises (apply_call c w))"
  by (cases c) simp_all

lemma run_length_mono: "length (promises w) \<le> length (promises (run cs w))"
proof (induction cs arbitrary: w)
  case Nil
  show ?case by simp
next
  case (Cons c cs)
  show ?case using Cons.IH [of "apply_call c w"] apply_call_length_mono [of w c] by simp
qed

lemma state_of_lock:
  "state_of (snd (lock w)) p =
     (if p = length (promises w) then (if locked w then Pending else Fulfilled)
      else state_of w p)"
  by (auto simp: lock_def new_promise_def state_of_def nth_append)

lemma apply_call_not_rejected:
  "state_of (apply_call c w) p = Rejected e \<Longrightarrow> state_of w p = Rejected e"
  by (cases c) (auto simp: state_of_lock state_of_unlock split: if_splits)

lemma run_not_rejected:
  "state_of (run cs w) p = Rejected e \<Longrightarrow> state_of w p = Rejected e"
  by (induction cs arbitrary: w) (auto dest: apply_call_not_rejected)

lemma run_no_unlock_keeps:
  "p < length (promises w) \<Longrightarrow> CallUnlock \<notin> set cs \<Longrightarrow> state_of (run cs w) p = state_of w p"
proof (induction cs arbitrary: w)
  case Nil
  show ?case by simp
next
  case (Cons c cs)
  from Cons.prems have c: "c = CallLock" by (cases c) auto
  have "state_of (run cs (snd (lock w))) p = state_of (snd (lock w)) p"
    using Cons.prems by (intro Cons.IH) auto
  with c Cons.prems show ?case by (simp add: state_of_lock)
qed

lemma apply_call_grant:
  "p < length (promises w) \<Longrightarrow> state_of w p \<noteq> Fulfilled \<Longrightarrow>
     state_of (apply_call c w) p = Fulfilled \<Longrightarrow>
     c = CallUnlock \<and> queue w \<noteq> [] \<and> hd (queue w) = p"
  by (cases c) (auto simp: state_of_lock state_of_unlock split: if_splits)

lemma run_grant:
  "p < length (promises w) \<Longrightarrow> state_of w p \<noteq> Fulfilled \<Longrightarrow>
     state_of (run cs w) p = Fulfilled \<Longrightarrow>
     \<exists>i < length cs. cs ! i = CallUnlock \<and> queue (run (take i cs) w) \<noteq> [] \<and>
        hd (queue (run (take i cs) w)) = p"
proof (induction cs rule: rev_induct)
  case Nil
  then show ?case by simp
next
  case (snoc c cs)
  show ?case
  proof (cases "state_of (run cs w) p = Fulfilled")
    case True
    with snoc obtain i where "i < length cs" "cs ! i = CallUnlock"
      "queue (run (take i cs) w) \<noteq> []" "hd (queue (run (take i cs) w)) = p" by blast
    then show ?thesis by (intro exI [of _ i]) (simp add: nth_append)
  next
    case False
    have "p < length (promises (run cs w))"
      using snoc.prems(1) run_length_mono [of w cs] by simp
    with False snoc.prems(3)
    have "c = CallUnlock \<and> queue (run cs w) \<noteq> [] \<and> hd (queue (run cs w)) = p"
      by (intro apply_call_grant) simp_all
    then show ?thesis by (intro exI [of _ "length cs"]) simp
  qed
qed

subsection \<open>States reached by calls\<close>

lemma wf_fresh: "well_formed fresh"
  by (simp add: well_formed_def fresh_def)

lemma wf_lock: "well_formed w \<Longrightarrow> well_formed (snd (lock w))"
proof (cases "locked w")
  case True
  assume "well_formed w"
  with True show ?thesis
    by (auto simp: well_formed_def lock_held nth_append)
next
  case False
  assume "well_formed w"
  with False show ?thesis
    by (auto simp: well_formed_def lock_free nth_append)
qed

lemma wf_unlock: "well_formed w \<Longrightarrow> well_formed (unlock w)"
proof (cases "queue w")
  case Nil
  assume "well_formed w"
  with Nil show ?thesis by (simp add: well_formed_def unlock_empty)
next
  case (Cons r rest)
  assume "well_formed w"
  with Cons show ?thesis
    by (auto simp: well_formed_def unlock_Cons resolve_def state_of_def nth_list_update)
qed

lemma wf_run: "well_formed w \<Longrightarrow> well_formed (run cs w)"
proof (induction cs arbitrary: w)
  case Nil
  then show ?case by simp
next
  case (Cons c cs)
  then show ?case by (cases c) (simp_all add: wf_lock wf_unlock)
qed

lemma unlock_steps_last: "last (unlock_steps w) = unlock w"
  by (simp add: unlock_steps_def unlock_def queue_shift_def split: list.splits)

lemma unlock_pow:
  "well_formed w \<Longrightarrow> k \<le> length (queue w) \<Longrightarrow>
     well_formed ((unlock ^^ k) w) \<and>
     queue ((unlock ^^ k) w) = drop k (queue w) \<and>
     (\<forall>p. state_of ((unlock ^^ k) w) p =
        (if p \<in> set (take k (queue w)) then Fulfilled else state_of w p))"
proof (induction k)
  case 0
  then show ?case by simp
next
  case (Suc k)
  define v where "v = (unlock ^^ k) w"
  from Suc have wf: "well_formed v" and q: "queue v = drop k (queue w)"
    and st: "\<And>p. state_of v p = (if p \<in> set (take k (queue w)) then Fulfilled else state_of w p)"
    by (simp_all add: v_def)
  from Suc.prems have k: "k < length (queue w)" by simp
  then have hd: "queue v \<noteq> []" "hd (queue v) = queue w ! k"
    using q by (simp_all add: hd_drop_conv_nth)
  from wf hd have pend: "queue w ! k < length (promises v)" "promises v ! (queue w ! k) = Pending"
    by (auto simp: well_formed_def dest: hd_in_set)
  have tk: "take (Suc k) (queue w) = take k (queue w) @ [queue w ! k]"
    using k by (simp add: take_Suc_conv_app_nth)
  have "state_of (unlock v) p =
        (if p \<in> set (take (Suc k) (queue w)) then Fulfilled else state_of w p)" for p
    using hd pend st [of p] by (auto simp: state_of_unlock tk)
  moreover have "queue (unlock v) = drop (Suc k) (queue w)"
    using q by (simp add: queue_unlock drop_Suc tl_drop)
  moreover have "well_formed (unlock v)" using wf by (rule wf_unlock)
  ultimately show ?case by (simp add: v_def)
qed

lemma ticket_inv_fresh: "ticket_inv fresh 0"
  by (simp add: ticket_inv_def fresh_def)

lemma ticket_inv_lock: "ticket_inv w k \<Longrightarrow> ticket_inv (snd (lock w)) k"
proof (cases "locked w")
  case True
  assume "ticket_inv w k"
  with True show ?thesis
    by (auto simp: ticket_inv_def lock_held nth_append)
next
  case False
  assume "ticket_inv w k"
  with False show ?thesis
    by (auto simp: ticket_inv_def lock_free nth_append Let_def less_Suc_eq)
qed

lemma ticket_inv_unlock:
  assumes inv: "ticket_inv w k" and l: "locked w"
  shows "ticket_inv (unlock w) (Suc k)"
proof (cases "queue w")
  case Nil
  from inv l Nil have "[Suc k ..< length (promises w)] = []"
    by (simp add: ticket_inv_def)
  then have "length (promises w) \<le> Suc k" by auto
  with inv l Nil show ?thesis
    by (auto simp: ticket_inv_def unlock_empty)
next
  case (Cons r rest)
  from inv l have q: "queue w = [Suc k ..< length (promises w)]"
    and len: "Suc k \<le> length (promises w)"
    and pr: "\<And>p. p < length (promises w) \<Longrightarrow>
               promises w ! p = (if p < Suc k then Fulfilled else Pending)"
    by (simp_all add: ticket_inv_def)
  from Cons q have lt: "Suc k < length (promises w)" and r: "r = Suc k"
    and rest: "rest = [Suc (Suc k) ..< length (promises w)]"
    by (auto simp: upt_eq_Cons_conv)
  have "promises w ! r = Pending" using pr [of r] lt r by simp
  then have u: "unlock w = w\<lparr>queue := rest, promises := (promises w)[r := Fulfilled]\<rparr>"
    using Cons lt r by (simp add: unlock_Cons resolve_def state_of_def)
  show ?thesis
    using l lt r rest pr by (auto simp: ticket_inv_def u nth_list_update)
qed

lemma ticket_inv_unlock_free:
  "ticket_inv w k \<Longrightarrow> \<not> locked w \<Longrightarrow> unlock w = w"
  by (simp add: ticket_inv_def unlock_empty)

lemma ticket_inv_holder:
  "ticket_inv w k \<Longrightarrow> state_of w t = Fulfilled \<longleftrightarrow> t < (if locked w then Suc k else k)"
  by (auto simp: ticket_inv_def state_of_def Let_def split: if_splits)

lemma released_Nil [simp]: "\<not> released w0 [] t"
  by (simp add: released_def)

lemma released_snoc:
  "released w0 (cs @ [c]) t \<longleftrightarrow>
     released w0 cs t \<or> (c = CallUnlock \<and> state_of (run cs w0) t = Fulfilled)"
proof -
  have "list_ex (\<lambda>j. (cs @ [c]) ! j = CallUnlock \<and>
                      state_of (run (take j (cs @ [c])) w0) t = Fulfilled) [0 ..< length cs]
        = list_ex (\<lambda>j. cs ! j = CallUnlock \<and>
                      state_of (run (take j cs) w0) t = Fulfilled) [0 ..< length cs]"
    by (rule list_ex_cong) (auto simp: nth_append)
  then show ?thesis by (auto simp: released_def)
qed

lemma released_iff:
  "released w0 cs t \<longleftrightarrow>
     (\<exists>j < length cs. cs ! j = CallUnlock \<and> state_of (run (take j cs) w0) t = Fulfilled)"
  by (auto simp: released_def list_ex_iff)

lemma calls_inv:
  "\<exists>k. ticket_inv (run cs (fresh :: 'e world)) k \<and>
       (\<forall>t. released (fresh :: 'e world) cs t \<longleftrightarrow> t < k)"
proof (induction cs rule: rev_induct)
  case Nil
  show ?case using ticket_inv_fresh by (intro exI [of _ 0]) simp
next
  case (snoc c cs)
  then obtain k where inv: "ticket_inv (run cs (fresh :: 'e world)) k"
    and rel: "\<And>t. released (fresh :: 'e world) cs t \<longleftrightarrow> t < k" by blast
  show ?case
  proof (cases c)
    case CallLock
    with inv rel show ?thesis
      by (intro exI [of _ k]) (simp add: ticket_inv_lock released_snoc)
  next
    case CallUnlock
    show ?thesis
    proof (cases "locked (run cs (fresh :: 'e world))")
      case True
      with inv have "ticket_inv (unlock (run cs (fresh :: 'e world))) (Suc k)"
        by (rule ticket_inv_unlock)
      with CallUnlock True inv rel show ?thesis
        by (intro exI [of _ "Suc k"])
           (auto simp: released_snoc ticket_inv_holder less_Suc_eq)
    next
      case False
      with inv have "unlock (run cs (fresh :: 'e world)) = run cs fresh"
        by (simp add: ticket_inv_unlock_free)
      with CallUnlock False inv rel show ?thesis
        by (intro exI [of _ k]) (auto simp: released_snoc ticket_inv_holder)
    qed
  qed
qed

subsection \<open>Calls of with\<close>

lemma exec_Nil [simp]: "exec cb [] tw = tw"
  by (simp add: exec_def)

lemma exec_Cons [simp]: "exec cb (e # es) tw = exec cb es (env_step cb e tw)"
  by (simp add: exec_def)

lemma exec_append [simp]: "exec cb (es @ fs) tw = exec cb fs (exec cb es tw)"
  by (simp add: exec_def)


lemma fulfilled_in_range: "state_of w p = Fulfilled \<Longrightarrow> p < length (promises w)"
  by (simp add: state_of_def split: if_splits)

lemma fulfilled_apply_call:
  "state_of w p = Fulfilled \<Longrightarrow> state_of (apply_call c w) p = Fulfilled"
  by (cases c) (auto simp: state_of_lock state_of_unlock dest: fulfilled_in_range)

lemma fulfilled_settle:
  "state_of w p = Fulfilled \<Longrightarrow> state_of (settle r out w) p = Fulfilled"
  by (auto simp: settle_def state_of_def nth_list_update split: if_splits)

lemma rejected_in_range: "state_of w p = Rejected e \<Longrightarrow> p < length (promises w)"
  by (simp add: state_of_def split: if_splits)

lemma rejected_apply_call:
  "state_of w p = Rejected e \<Longrightarrow> state_of (apply_call c w) p = Rejected e"
  by (cases c)
     (auto simp: state_of_lock state_of_unlock dest: rejected_in_range, simp add: state_of_def)

lemma rejected_settle:
  "state_of w p = Rejected e \<Longrightarrow> state_of (settle r out w) p = Rejected e"
  by (auto simp: settle_def state_of_def nth_list_update split: if_splits)

lemma completed_apply_call: "completed w ret \<Longrightarrow> completed (apply_call c w) ret"
  by (cases ret) (simp_all add: completed_def fulfilled_apply_call)

lemma completed_settle: "completed w ret \<Longrightarrow> completed (settle r out w) ret"
  by (cases ret) (simp_all add: completed_def fulfilled_settle)

lemma with_inv_start: "with_inv (fst (lock w)) (fst (with_start w)) (snd (with_start w))"
  by (cases "locked w") (simp_all add: with_inv_def with_start_def lock_free lock_held nth_append)

lemma handle_lock:
  assumes "h < length (promises w)"
    and "promises w ! h = Fulfilled \<or> (promises w ! h = Pending \<and> h \<in> set (queue w))"
  shows "h < length (promises (snd (lock w))) \<and>
         (promises (snd (lock w)) ! h = Fulfilled \<or>
          (promises (snd (lock w)) ! h = Pending \<and> h \<in> set (queue (snd (lock w)))))"
  using assms by (cases "locked w") (auto simp: lock_free lock_held nth_append)

lemma handle_unlock:
  assumes "h < length (promises w)"
    and "promises w ! h = Fulfilled \<or> (promises w ! h = Pending \<and> h \<in> set (queue w))"
  shows "h < length (promises (unlock w)) \<and>
         (promises (unlock w) ! h = Fulfilled \<or>
          (promises (unlock w) ! h = Pending \<and> h \<in> set (queue (unlock w))))"
proof (cases "queue w")
  case Nil
  with assms show ?thesis by (auto simp: unlock_empty)
next
  case (Cons r rest)
  with assms show ?thesis
    by (auto simp: unlock_Cons resolve_def state_of_def nth_list_update)
qed

lemma handle_settle:
  assumes "h < length (promises w)"
    and "promises w ! h = Fulfilled \<or> (promises w ! h = Pending \<and> h \<in> set (queue w))"
  shows "h < length (promises (settle r out w)) \<and>
         (promises (settle r out w) ! h = Fulfilled \<or>
          (promises (settle r out w) ! h = Pending \<and> h \<in> set (queue (settle r out w))))"
  using assms by (auto simp: settle_def nth_list_update)

lemma with_inv_call: "with_inv h t w \<Longrightarrow> with_inv h t (apply_call c w)"
proof (cases "stage t")
  case (AwaitLock h')
  assume "with_inv h t w"
  with AwaitLock show ?thesis
    using handle_lock [of h w] handle_unlock [of h w]
    by (cases c) (simp_all add: with_inv_def)
qed (auto simp: with_inv_def completed_apply_call rejected_apply_call)

lemma with_inv_settle: "with_inv h t w \<Longrightarrow> with_inv h t (settle r out w)"
proof (cases "stage t")
  case (AwaitLock h')
  assume "with_inv h t w"
  with AwaitLock show ?thesis
    using handle_settle [of h w r out] by (simp add: with_inv_def)
qed (auto simp: with_inv_def completed_settle rejected_settle)

lemma with_inv_tick:
  assumes inv: "with_inv h t w"
  shows "with_inv h (fst (with_tick cb (t, w))) (snd (with_tick cb (t, w)))"
proof (cases "stage t")
  case (AwaitLock h')
  with inv have h: "h' = h" "events t = [EvLock h]" "result t = Pending"
    "h < length (promises w)"
    "promises w ! h = Fulfilled \<or> (promises w ! h = Pending \<and> h \<in> set (queue w))"
    by (simp_all add: with_inv_def)
  show ?thesis
  proof (cases "promises w ! h = Fulfilled")
    case True
    obtain ret w1 where cb: "cb w = (ret, w1)" by (cases "cb w")
    show ?thesis using AwaitLock h True cb
      by (cases ret)
         (simp_all add: with_tick_def with_body_def state_of_def with_inv_def completed_def
            is_thenable_def)
  next
    case False
    with AwaitLock h inv show ?thesis
      by (auto simp: with_tick_def state_of_def)
  qed
next
  case (AwaitAction r)
  with inv show ?thesis
    by (cases "state_of w r")
       (auto simp: with_tick_def with_then_unlock_def with_inv_def completed_def
          state_of_unlock)
next
  case Returning
  with inv show ?thesis by (auto simp: with_tick_def with_inv_def)
next
  case (Failing e)
  with inv show ?thesis by (auto simp: with_tick_def with_inv_def)
next
  case Settled
  with inv show ?thesis by (simp add: with_tick_def)
qed

lemma with_inv_step:
  "with_inv h (fst tw) (snd tw) \<Longrightarrow>
     with_inv h (fst (env_step cb e tw)) (snd (env_step cb e tw))"
  by (cases e; cases tw) (simp_all add: with_inv_tick with_inv_call with_inv_settle)

lemma with_inv_exec:
  "with_inv h (fst tw) (snd tw) \<Longrightarrow>
     with_inv h (fst (exec cb es tw)) (snd (exec cb es tw))"
  by (induction es arbitrary: tw) (simp_all add: with_inv_step)








lemma with_never_unlocks_on_failure:
  assumes "exec cb es (with_start w) = (t, w')" and "result t = Rejected e"
  shows "EvUnlock \<notin> set (events t)"
proof -
  have "with_inv (fst (lock w)) (fst (exec cb es (with_start w))) (snd (exec cb es (with_start w)))"
    by (rule with_inv_exec) (rule with_inv_start)
  with assms have "with_inv (fst (lock w)) t w'" by simp
  with assms(2) show ?thesis by (cases "stage t") (auto simp: with_inv_def)
qed

section \<open>Claims\<close>

subsection \<open>lock and unlock\<close>

text \<open>
  C9: calling unlock on a lock that is free and has no waiters leaves the state as it
  was: still free, the queue still empty, no promise touched.
\<close>

theorem unlock_free_noop:
  "\<not> locked w \<and> queue w = [] \<longrightarrow> unlock w = w"
  by (simp add: unlock_def)

theorem unlock_free_noop_witness:
  "\<not> locked (fresh :: nat world) \<and> queue (fresh :: nat world) = [] \<and>
   unlock (fresh :: nat world) = fresh"
  using unlock_free_noop [of "fresh :: nat world"] by (simp add: fresh_def)

text \<open>
  C4: on a free lock, lock returns a promise that is already fulfilled and marks the lock
  held, the queue untouched. On a held lock, lock puts the caller at the end of the queue
  and returns a pending promise; whatever calls follow, that promise is fulfilled only
  if one of them is a call of unlock made when the caller was first in the queue.
\<close>

theorem lock_free_or_held:
  "(\<not> locked w \<longrightarrow>
      state_of (snd (lock w)) (fst (lock w)) = Fulfilled \<and> locked (snd (lock w)) \<and>
      queue (snd (lock w)) = queue w) \<and>
   (locked w \<longrightarrow>
      queue (snd (lock w)) = queue w @ [fst (lock w)] \<and> locked (snd (lock w)) \<and>
      state_of (snd (lock w)) (fst (lock w)) = Pending \<and>
      (\<forall>cs. state_of (run cs (snd (lock w))) (fst (lock w)) = Fulfilled \<longrightarrow>
         (\<exists>i < length cs. cs ! i = CallUnlock \<and>
            queue (run (take i cs) (snd (lock w))) \<noteq> [] \<and>
            hd (queue (run (take i cs) (snd (lock w)))) = fst (lock w))))"
proof (intro conjI impI allI)
  fix cs
  assume l: "locked w"
    and f: "state_of (run cs (snd (lock w))) (fst (lock w)) = Fulfilled"
  have "fst (lock w) < length (promises (snd (lock w)))" by simp
  moreover have "state_of (snd (lock w)) (fst (lock w)) \<noteq> Fulfilled"
    using l by (simp add: state_of_lock)
  ultimately show "\<exists>i < length cs. cs ! i = CallUnlock \<and>
            queue (run (take i cs) (snd (lock w))) \<noteq> [] \<and>
            hd (queue (run (take i cs) (snd (lock w)))) = fst (lock w)"
    using f by (rule run_grant)
qed (simp_all add: lock_free lock_held state_of_def)

theorem lock_free_or_held_witness:
  "\<not> locked (fresh :: nat world) \<and>
   state_of (snd (lock (fresh :: nat world))) (fst (lock (fresh :: nat world))) = Fulfilled \<and>
   locked (snd (lock (fresh :: nat world))) \<and>
   queue (snd (lock (snd (lock (fresh :: nat world))))) = [1] \<and>
   state_of (snd (lock (snd (lock (fresh :: nat world))))) 1 = Pending \<and>
   state_of (run [CallUnlock] (snd (lock (snd (lock (fresh :: nat world)))))) 1 = Fulfilled \<and>
   hd (queue (run (take 0 [CallUnlock]) (snd (lock (snd (lock (fresh :: nat world))))))) = 1"
  using lock_free_or_held [of "fresh :: nat world"]
    lock_free_or_held [of "snd (lock (fresh :: nat world))"]
  by (simp add: evals)

text \<open>
  C5: in a state reached by calls from a fresh lock, unlock with waiters takes the first
  waiter off the queue and fulfils its promise, which was pending; the lock is held before,
  after each statement of unlock, and at its end. Without waiters, unlock marks the lock
  free.
\<close>

theorem unlock_hands_over:
  "w = run cs fresh \<Longrightarrow>
   (queue w \<noteq> [] \<longrightarrow>
      locked w \<and>
      state_of w (hd (queue w)) = Pending \<and>
      queue (unlock w) = tl (queue w) \<and>
      state_of (unlock w) (hd (queue w)) = Fulfilled \<and>
      (\<forall>s \<in> set (unlock_steps w). locked s) \<and>
      last (unlock_steps w) = unlock w) \<and>
   (queue w = [] \<longrightarrow>
      \<not> locked (unlock w) \<and> queue (unlock w) = [] \<and> promises (unlock w) = promises w)"
proof -
  assume "w = run cs fresh"
  then have wf: "well_formed w" by (simp add: wf_run wf_fresh)
  have a: "queue w = [] \<Longrightarrow> \<not> locked (unlock w) \<and> queue (unlock w) = [] \<and>
      promises (unlock w) = promises w"
    by (simp add: unlock_empty)
  have b: "locked w \<and> state_of w (hd (queue w)) = Pending \<and> queue (unlock w) = tl (queue w) \<and>
      state_of (unlock w) (hd (queue w)) = Fulfilled \<and>
      (\<forall>s \<in> set (unlock_steps w). locked s) \<and> last (unlock_steps w) = unlock w"
    if ne: "queue w \<noteq> []"
  proof -
    from ne obtain r rest where q: "queue w = r # rest" by (cases "queue w") auto
    from wf q have l: "locked w" and r: "r < length (promises w)" "promises w ! r = Pending"
      by (auto simp: well_formed_def)
    from l have "\<forall>s \<in> set (unlock_steps w). locked s"
      using q by (simp add: unlock_steps_def queue_shift_def)
    with l r q show ?thesis
      by (simp add: unlock_Cons state_of_resolve unlock_steps_last) (simp add: state_of_def)
  qed
  from a b show ?thesis by blast
qed

theorem unlock_hands_over_witness:
  "queue (run [CallLock, CallLock] (fresh :: nat world)) = [1] \<and>
   state_of (run [CallLock, CallLock] (fresh :: nat world)) 1 = Pending \<and>
   queue (unlock (run [CallLock, CallLock] (fresh :: nat world))) = [] \<and>
   state_of (unlock (run [CallLock, CallLock] (fresh :: nat world))) 1 = Fulfilled \<and>
   locked (unlock (run [CallLock, CallLock] (fresh :: nat world))) \<and>
   list_all locked (unlock_steps (run [CallLock, CallLock] (fresh :: nat world))) \<and>
   queue (run [CallLock] (fresh :: nat world)) = [] \<and>
   \<not> locked (unlock (run [CallLock] (fresh :: nat world)))"
  using unlock_hands_over [of "run [CallLock, CallLock] (fresh :: nat world)" "[CallLock, CallLock]"]
    unlock_hands_over [of "run [CallLock] (fresh :: nat world)" "[CallLock]"]
  by (simp add: evals unlock_steps_def)

text \<open>
  C7: lock has no failing path. The promise it returns is fulfilled, or it is pending and
  its resolve function is in the queue, where a later unlock finds it; and no sequence of
  calls of lock and unlock ever rejects it. (The method contains no throw and no call
  that can throw, so the function has no error result.)
\<close>

theorem lock_never_fails:
  "(state_of (snd (lock w)) (fst (lock w)) = Fulfilled \<or>
    (state_of (snd (lock w)) (fst (lock w)) = Pending \<and> fst (lock w) \<in> set (queue (snd (lock w)))))
   \<and> (\<forall>cs e. state_of (run cs (snd (lock w))) (fst (lock w)) \<noteq> Rejected e)"
proof -
  have a: "state_of (snd (lock w)) (fst (lock w)) = (if locked w then Pending else Fulfilled)"
    by (simp add: state_of_lock_new)
  have b: "locked w \<Longrightarrow> fst (lock w) \<in> set (queue (snd (lock w)))"
    by (simp add: lock_held)
  have c: "state_of (run cs (snd (lock w))) (fst (lock w)) \<noteq> Rejected e" for cs e
  proof
    assume "state_of (run cs (snd (lock w))) (fst (lock w)) = Rejected e"
    then have "state_of (snd (lock w)) (fst (lock w)) = Rejected e" by (rule run_not_rejected)
    with a show False by (simp split: if_splits)
  qed
  from a b c show ?thesis by (cases "locked w") auto
qed

theorem lock_never_fails_witness:
  "state_of (snd (lock (snd (lock (fresh :: nat world))))) 1 = Pending \<and>
   1 \<in> set (queue (snd (lock (snd (lock (fresh :: nat world)))))) \<and>
   state_of (run [CallLock, CallUnlock, CallUnlock] (snd (lock (snd (lock (fresh :: nat world)))))) 1
     \<noteq> Rejected 0"
  using lock_never_fails [of "snd (lock (fresh :: nat world))"]
  by (simp add: evals)

text \<open>
  C8: when the lock is held and its holder calls lock again, the promise of that second
  call stays pending for as long as nobody calls unlock, whatever else is called.
\<close>

theorem reentrant_lock_never_completes:
  "locked w \<Longrightarrow> CallUnlock \<notin> set cs \<Longrightarrow>
     state_of (run cs (snd (lock w))) (fst (lock w)) = Pending"
  using run_no_unlock_keeps [of "fst (lock w)" "snd (lock w)" cs]
  by (simp add: state_of_lock)

theorem reentrant_lock_never_completes_witness:
  "locked (snd (lock (fresh :: nat world))) \<and>
   CallUnlock \<notin> set [CallLock, CallLock] \<and>
   state_of (run [CallLock, CallLock] (snd (lock (snd (lock (fresh :: nat world))))))
     (fst (lock (snd (lock (fresh :: nat world))))) = Pending"
  using reentrant_lock_never_completes [of "snd (lock (fresh :: nat world))" "[CallLock, CallLock]"]
  by (simp add: evals)

text \<open>
  C3: in a state reached by calls from a fresh lock where the lock is held, let A, B and
  C call lock in that order, behind \<open>n\<close> earlier waiters. While at most \<open>n\<close> calls of
  unlock have been made none of the three is served; the next call of unlock serves A
  alone, the one after it B, and the one after that C.
\<close>

theorem waiters_served_in_arrival_order:
  assumes w: "w = run cs fresh" and l: "locked w"
    and a: "lock w = (a, w1)" and b: "lock w1 = (b, w2)" and c: "lock w2 = (c, w3)"
    and n: "n = length (queue w)"
  shows "queue w3 = queue w @ [a, b, c] \<and>
     (\<forall>k \<le> n. state_of ((unlock ^^ k) w3) a = Pending \<and>
               state_of ((unlock ^^ k) w3) b = Pending \<and>
               state_of ((unlock ^^ k) w3) c = Pending) \<and>
     (state_of ((unlock ^^ (n + 1)) w3) a = Fulfilled \<and>
      state_of ((unlock ^^ (n + 1)) w3) b = Pending \<and>
      state_of ((unlock ^^ (n + 1)) w3) c = Pending) \<and>
     (state_of ((unlock ^^ (n + 2)) w3) a = Fulfilled \<and>
      state_of ((unlock ^^ (n + 2)) w3) b = Fulfilled \<and>
      state_of ((unlock ^^ (n + 2)) w3) c = Pending) \<and>
     (state_of ((unlock ^^ (n + 3)) w3) a = Fulfilled \<and>
      state_of ((unlock ^^ (n + 3)) w3) b = Fulfilled \<and>
      state_of ((unlock ^^ (n + 3)) w3) c = Fulfilled)"
proof -
  define m where "m = length (promises w)"
  from w have wf: "well_formed w" by (simp add: wf_run wf_fresh)
  from a l have a': "a = m" "w1 = w\<lparr>promises := promises w @ [Pending], queue := queue w @ [m]\<rparr>"
    unfolding m_def by (auto simp: lock_held)
  then have l1: "locked w1" using l by simp
  from b l1 a' have b': "b = Suc m"
    "w2 = w\<lparr>promises := promises w @ [Pending, Pending], queue := queue w @ [m, Suc m]\<rparr>"
    unfolding m_def by (auto simp: lock_held)
  then have l2: "locked w2" using l by simp
  from c l2 b' have c': "c = Suc (Suc m)"
    "w3 = w\<lparr>promises := promises w @ [Pending, Pending, Pending],
            queue := queue w @ [m, Suc m, Suc (Suc m)]\<rparr>"
    unfolding m_def by (auto simp: lock_held)
  have wf3: "well_formed w3"
    using wf_lock [OF wf_lock [OF wf_lock [OF wf]]] a b c by simp
  have q3: "queue w3 = queue w @ [a, b, c]" using a' b' c' by simp
  have old: "\<forall>p \<in> set (queue w). p < m" using wf by (simp add: well_formed_def m_def)
  have notin: "a \<notin> set (queue w)" "b \<notin> set (queue w)" "c \<notin> set (queue w)"
    using old a' b' c' by auto
  have pend: "state_of w3 a = Pending" "state_of w3 b = Pending" "state_of w3 c = Pending"
    using a' b' c' by (simp_all add: state_of_def nth_append m_def)
  have st: "state_of ((unlock ^^ k) w3) p =
        (if p \<in> set (take k (queue w @ [a, b, c])) then Fulfilled else state_of w3 p)"
    if "k \<le> n + 3" for k p
    using unlock_pow [OF wf3, of k] that q3 n by simp
  have p0: "state_of ((unlock ^^ k) w3) a = Pending \<and>
               state_of ((unlock ^^ k) w3) b = Pending \<and>
               state_of ((unlock ^^ k) w3) c = Pending" if "k \<le> n" for k
    using that st [of k] notin pend n by (auto dest: in_set_takeD)
  have ne: "a \<noteq> b" "a \<noteq> c" "b \<noteq> c" using a' b' c' by simp_all
  have p1: "state_of ((unlock ^^ (n + 1)) w3) a = Fulfilled \<and>
      state_of ((unlock ^^ (n + 1)) w3) b = Pending \<and>
      state_of ((unlock ^^ (n + 1)) w3) c = Pending"
    using st [of "n + 1"] notin pend n ne by simp
  have p2: "state_of ((unlock ^^ (n + 2)) w3) a = Fulfilled \<and>
      state_of ((unlock ^^ (n + 2)) w3) b = Fulfilled \<and>
      state_of ((unlock ^^ (n + 2)) w3) c = Pending"
    using st [of "n + 2"] notin pend n ne by simp
  have p3: "state_of ((unlock ^^ (n + 3)) w3) a = Fulfilled \<and>
      state_of ((unlock ^^ (n + 3)) w3) b = Fulfilled \<and>
      state_of ((unlock ^^ (n + 3)) w3) c = Fulfilled"
    using st [of "n + 3"] n by simp
  from q3 p0 p1 p2 p3 show ?thesis by blast
qed

theorem waiters_served_in_arrival_order_witness:
  "locked (run [CallLock] (fresh :: nat world)) \<and>
   lock (run [CallLock] (fresh :: nat world)) = (1, run [CallLock, CallLock] fresh) \<and>
   lock (run [CallLock, CallLock] (fresh :: nat world)) = (2, run [CallLock, CallLock, CallLock] fresh) \<and>
   lock (run [CallLock, CallLock, CallLock] (fresh :: nat world)) =
     (3, run [CallLock, CallLock, CallLock, CallLock] fresh) \<and>
   0 = length (queue (run [CallLock] (fresh :: nat world))) \<and>
   state_of ((unlock ^^ (0 + 1)) (run [CallLock, CallLock, CallLock, CallLock] (fresh :: nat world))) 1
     = Fulfilled \<and>
   state_of ((unlock ^^ (0 + 1)) (run [CallLock, CallLock, CallLock, CallLock] (fresh :: nat world))) 2
     = Pending \<and>
   state_of ((unlock ^^ (0 + 2)) (run [CallLock, CallLock, CallLock, CallLock] (fresh :: nat world))) 2
     = Fulfilled \<and>
   state_of ((unlock ^^ (0 + 2)) (run [CallLock, CallLock, CallLock, CallLock] (fresh :: nat world))) 3
     = Pending \<and>
   state_of ((unlock ^^ (0 + 3)) (run [CallLock, CallLock, CallLock, CallLock] (fresh :: nat world))) 3
     = Fulfilled"
proof -
  let ?w = "run [CallLock] (fresh :: nat world)"
  have w: "?w = run [CallLock] fresh" by simp
  have l: "locked ?w" by (simp add: evals)
  have a: "lock ?w = (1, run [CallLock, CallLock] fresh)" by (simp add: evals)
  have b: "lock (run [CallLock, CallLock] (fresh :: nat world)) =
             (2, run [CallLock, CallLock, CallLock] fresh)" by (simp add: evals)
  have c: "lock (run [CallLock, CallLock, CallLock] (fresh :: nat world)) =
             (3, run [CallLock, CallLock, CallLock, CallLock] fresh)" by (simp add: evals)
  have n: "0 = length (queue ?w)" by (simp add: evals)
  from waiters_served_in_arrival_order [OF w l a b c n] l a b c n show ?thesis by simp
qed

text \<open>
  C2: after every sequence of calls of lock and unlock on a fresh lock, at most one caller
  holds the lock. When a call fulfils the promise of a caller, nobody else holds the lock
  after that call. And the caller that arrived after caller \<open>n\<close> has its promise
  fulfilled only if, among the calls so far, there is a call of unlock made when the
  promise of caller \<open>n\<close> was already fulfilled: the release that matches the grant of
  \<open>n\<close> has happened.
\<close>

theorem one_holder_at_a_time:
  assumes w0: "w0 = fresh"
  shows "(\<forall>a b. holding w0 cs a \<and> holding w0 cs b \<longrightarrow> a = b) \<and>
         (\<forall>t c. state_of (run cs w0) t \<noteq> Fulfilled \<and>
                 state_of (run (cs @ [c]) w0) t = Fulfilled \<longrightarrow>
                 (\<forall>b. holding w0 (cs @ [c]) b \<longrightarrow> b = t)) \<and>
         (\<forall>n. state_of (run cs w0) (Suc n) = Fulfilled \<longrightarrow>
               (\<exists>j < length cs. cs ! j = CallUnlock \<and>
                  state_of (run (take j cs) w0) n = Fulfilled))"
proof -
  have uniq: "a = b" if "holding w0 ds a" and "holding w0 ds b" for ds a b
  proof -
    from w0 obtain k where inv: "ticket_inv (run ds w0) k"
      and rel: "\<And>t. released w0 ds t \<longleftrightarrow> t < k"
      using calls_inv [of ds] by blast
    have "x = k" if "holding w0 ds x" for x
      using that inv rel [of x] by (auto simp: holding_def ticket_inv_holder split: if_splits)
    with that show ?thesis by blast
  qed
  from w0 obtain k where inv: "ticket_inv (run cs w0) k"
    and rel: "\<And>t. released w0 cs t \<longleftrightarrow> t < k"
    using calls_inv [of cs] by blast
  have grant: "b = t"
    if nf: "state_of (run cs w0) t \<noteq> Fulfilled"
      and f: "state_of (run (cs @ [c]) w0) t = Fulfilled"
      and b: "holding w0 (cs @ [c]) b" for t c b
  proof -
    have "\<not> released w0 cs t"
      using nf inv rel [of t] by (auto simp: ticket_inv_holder split: if_splits)
    with nf have "\<not> released w0 (cs @ [c]) t" by (simp add: released_snoc)
    with f have "holding w0 (cs @ [c]) t" by (simp add: holding_def)
    with b show ?thesis by (rule uniq)
  qed
  have order: "\<exists>j < length cs. cs ! j = CallUnlock \<and> state_of (run (take j cs) w0) n = Fulfilled"
    if "state_of (run cs w0) (Suc n) = Fulfilled" for n
  proof -
    from that inv have "n < k" by (auto simp: ticket_inv_holder split: if_splits)
    then have "released w0 cs n" by (simp add: rel)
    then show ?thesis by (simp add: released_iff)
  qed
  from uniq grant order show ?thesis by blast
qed

theorem one_holder_at_a_time_witness:
  "holding (fresh :: nat world) [CallLock, CallLock, CallUnlock] 1 \<and>
   \<not> holding (fresh :: nat world) [CallLock, CallLock, CallUnlock] 0 \<and>
   state_of (run [CallLock, CallLock] (fresh :: nat world)) 1 \<noteq> Fulfilled \<and>
   state_of (run ([CallLock, CallLock] @ [CallUnlock]) (fresh :: nat world)) 1 = Fulfilled \<and>
   [CallLock, CallLock, CallUnlock] ! 2 = CallUnlock \<and>
   state_of (run (take 2 [CallLock, CallLock, CallUnlock]) (fresh :: nat world)) 0 = Fulfilled"
proof -
  have a: "holding (fresh :: nat world) [CallLock, CallLock, CallUnlock] 1"
    by (simp add: holding_def released_def evals upt_rec)
  have b: "state_of (run [CallLock, CallLock] (fresh :: nat world)) 1 \<noteq> Fulfilled"
    by (simp add: evals)
  have c: "state_of (run ([CallLock, CallLock] @ [CallUnlock]) (fresh :: nat world)) 1 = Fulfilled"
    by (simp add: evals)
  have d: "[CallLock, CallLock, CallUnlock] ! 2 = CallUnlock"
    by simp
  have e: "state_of (run (take 2 [CallLock, CallLock, CallUnlock]) (fresh :: nat world)) 0
             = Fulfilled"
    by (simp add: evals)
  have f: "(0::nat) \<noteq> 1" by simp
  from one_holder_at_a_time [of "fresh :: nat world" "[CallLock, CallLock, CallUnlock]", OF refl]
  have "holding (fresh :: nat world) [CallLock, CallLock, CallUnlock] 0 \<longrightarrow> (0::nat) = 1"
    using a by blast
  with f have "\<not> holding (fresh :: nat world) [CallLock, CallLock, CallUnlock] 0" by blast
  with a b c d e show ?thesis by blast
qed

subsection \<open>with\<close>




text \<open>
  C1, which the code does not meet. On a fresh lock, \<^verbatim>\<open>with\<close> of an action that
  throws \<open>x\<close>, of an action that returns a promise already rejected with \<open>x\<close>, and
  of an action whose promise is rejected with \<open>x\<close> later, all end in the same way:
  the promise of \<^verbatim>\<open>with\<close> is rejected with \<open>x\<close>, so the failure reaches the caller,
  but unlock was never called and the lock is still held.
\<close>

theorem with_keeps_lock_after_failure:
  "exec (throwing x) [Tick, Tick] (with_start fresh) =
     (\<lparr>stage = Settled, result = Rejected x,
       events = [EvLock 0, EvInvoke (Throws x), EvReject x]\<rparr>,
      \<lparr>locked = True, queue = [], promises = [Fulfilled]\<rparr>) \<and>
   exec (rejecting x) [Tick, Tick, Tick] (with_start fresh) =
     (\<lparr>stage = Settled, result = Rejected x,
       events = [EvLock 0, EvInvoke (ReturnsPromise 1), EvReject x]\<rparr>,
      \<lparr>locked = True, queue = [], promises = [Fulfilled, Rejected x]\<rparr>) \<and>
   exec returning_promise [Tick, Settle 1 (Some x), Tick, Tick] (with_start fresh) =
     (\<lparr>stage = Settled, result = Rejected x,
       events = [EvLock 0, EvInvoke (ReturnsPromise 1), EvReject x]\<rparr>,
      \<lparr>locked = True, queue = [], promises = [Fulfilled, Rejected x]\<rparr>)"
  by (simp add: with_evals evals)



end
